theory Spec2Isabelle
  imports Main "HOL-Library.Word" "HOL-Library.Stream"
begin

unbundle bit_operations_syntax

section \<open>Fixed-width integers and errors\<close>

type_synonym u8 = "8 word"
type_synonym u32 = "32 word"
type_synonym u64 = "64 word"

text \<open>
  The ways in which the two programs can stop abnormally: the \<open>assert\<close> on the global
  cumulative frequency, a bounds-checked array access (\<open>std::array::at\<close>) out of range,
  a division by a zero range, and the signed overflow of \<open>int underflow_counter\<close>.
\<close>

datatype error = assertion_failed | out_of_range | division_by_zero | signed_overflow

definition EOF_SYMBOL :: u32 where
  "EOF_SYMBOL = 256"

definition INT_MAX :: nat where
  "INT_MAX = 2147483647"

section \<open>The frequency model (identical text in both programs)\<close>

text \<open>\<open>frequencies.fill(1)\<close> on an array of \<open>EOF_SYMBOL+1\<close> entries.\<close>

definition filled :: "u32 list" where
  "filled = replicate (unat EOF_SYMBOL + 1) 1"

text \<open>\<open>for(unsigned int i = 65; i <= 122; i++) frequencies.at(i) = 2;\<close>\<close>

definition set_letters :: "u32 list \<Rightarrow> u32 list" where
  "set_letters fs = fold (\<lambda>i a. a[i := 2]) [65..<123] fs"

definition vowels :: string where
  "vowels = ''AEIOUaeiou''"

text \<open>\<open>for(unsigned char c: vowels) frequencies.at(c) = 4;\<close>\<close>

definition set_vowels :: "u32 list \<Rightarrow> u32 list" where
  "set_vowels fs = fold (\<lambda>c a. a[of_char c := 4]) vowels fs"

definition frequencies :: "u32 list" where
  "frequencies = set_vowels (set_letters filled)"

text \<open>
  The cumulative array of \<open>EOF_SYMBOL+2\<close> 64-bit entries:
  \<open>CF_low.at(i) = CF_low.at(i-1) + frequencies.at(i-1)\<close> for \<open>i\<close> from 1.
  It is written for any table so that the precision check can be stated for any model.
\<close>

definition cumulative :: "u32 list \<Rightarrow> u64 list" where
  "cumulative fs =
     fold (\<lambda>i cf. cf[i := cf ! (i - 1) + ucast (fs ! (i - 1))])
       [1..<length fs + 1] (replicate (length fs + 1) 0)"

definition CF_low :: "u64 list" where
  "CF_low = cumulative frequencies"

definition global_cumulative_frequency :: u64 where
  "global_cumulative_frequency = CF_low ! (unat EOF_SYMBOL + 1)"

text \<open>\<open>assert(global_cumulative_frequency <= 0xffffffff)\<close> for the model built from a table.\<close>

definition check_precision :: "u32 list \<Rightarrow> error + u64" where
  "check_precision fs =
     (let total_frequency = cumulative fs ! length fs
      in if total_frequency \<le> 0xffffffff then Inr total_frequency else Inl assertion_failed)"

section \<open>The bit sink of the encoder\<close>

text \<open>
  Modelled from the spec: the class \<open>OutputBitStream\<close> of \<open>output_stream.hpp\<close>, which is
  not among the sources. Section 6 of the specification gives its contract:
  \<open>push_bit(b)\<close> with \<open>b\<close> 0 or 1, bits emitted in call order, none dropped, packed into
  bytes least-significant bit first; \<open>flush_to_byte(pad_bit)\<close> pads the current partial
  output byte with copies of \<open>pad_bit\<close> until a full byte is emitted. The state is the
  bytes written so far and the bits of the current partial byte, first pushed first.
\<close>

record OutputBitStream =
  outfile :: "u8 list"
  pending :: "bool list"

definition OutputBitStream_init :: OutputBitStream where
  "OutputBitStream_init = \<lparr>outfile = [], pending = []\<rparr>"

definition pack_byte :: "bool list \<Rightarrow> u8" where
  "pack_byte bs = horner_sum of_bool 2 bs"

definition push_bit_stream :: "u32 \<Rightarrow> OutputBitStream \<Rightarrow> OutputBitStream" where
  "push_bit_stream b s =
     (let bs = pending s @ [bit b 0]
      in if length bs = 8 then s\<lparr>outfile := outfile s @ [pack_byte bs], pending := []\<rparr>
         else s\<lparr>pending := bs\<rparr>)"

definition flush_to_byte :: "u32 \<Rightarrow> OutputBitStream \<Rightarrow> OutputBitStream" where
  "flush_to_byte pad_bit s =
     (if pending s = [] then s
      else s\<lparr>outfile := outfile s @
                 [pack_byte (pending s @ replicate (8 - length (pending s)) (bit pad_bit 0))],
             pending := []\<rparr>)"

section \<open>The bit source of the decoder (\<open>input_stream.hpp\<close>)\<close>

record InputBitStream =
  bitvec :: u32
  numbits :: u32
  infile :: "u8 list"
  done_flag :: bool
  last_real_bit :: u32

definition InputBitStream_init :: "u8 list \<Rightarrow> InputBitStream" where
  "InputBitStream_init input_stream =
     \<lparr>bitvec = 0, numbits = 8, infile = input_stream, done_flag = False, last_real_bit = 0\<rparr>"

definition input_byte :: "InputBitStream \<Rightarrow> InputBitStream" where
  "input_byte s =
     (case infile s of
        [] \<Rightarrow> s\<lparr>done_flag := True, numbits := 0\<rparr>
      | c # rest \<Rightarrow> s\<lparr>infile := rest, bitvec := ucast c, numbits := 0\<rparr>)"

definition read_bit :: "InputBitStream \<Rightarrow> u32 \<times> InputBitStream" where
  "read_bit s =
     (let s1 = (if numbits s = 8 then input_byte s else s);
          s2 = (if \<not> done_flag s1
                then s1\<lparr>last_real_bit := drop_bit (unat (numbits s1)) (bitvec s1) AND 1,
                        numbits := numbits s1 + 1\<rparr>
                else s1)
      in (last_real_bit s2, s2))"

section \<open>Interval narrowing and renormalization\<close>

text \<open>
  The interval update of the encoder. The symbol is a byte value or \<open>EOF_SYMBOL\<close>, so both
  reads of \<open>CF_low\<close> are in range. All arithmetic is on 64-bit words; the assignment to the
  32-bit bounds truncates.
\<close>

definition enc_narrow :: "u32 \<Rightarrow> u32 \<Rightarrow> u32 \<Rightarrow> u32 \<times> u32" where
  "enc_narrow lower_bound upper_bound symbol =
     (let current_range = ((ucast upper_bound :: u64) + 1) - ucast lower_bound;
          symbol_range_low = CF_low ! unat symbol;
          symbol_range_high = CF_low ! unat (symbol + 1);
          upper_bound' = ucast (ucast lower_bound
              + (current_range * symbol_range_high) div global_cumulative_frequency - 1);
          lower_bound' = ucast (ucast lower_bound
              + (current_range * symbol_range_low) div global_cumulative_frequency)
      in (lower_bound', upper_bound'))"

text \<open>The interval update of the decoder, given the range it has already computed.\<close>

definition dec_narrow :: "u32 \<Rightarrow> u32 \<Rightarrow> u32 \<Rightarrow> u32 \<times> u32" where
  "dec_narrow lower_bound upper_bound symbol =
     (let current_range = (ucast upper_bound :: u64) - ucast lower_bound + 1;
          symbol_range_low = CF_low ! unat symbol;
          symbol_range_high = CF_low ! unat (symbol + 1);
          upper_bound' = ucast (ucast lower_bound
              + (current_range * symbol_range_high) div global_cumulative_frequency - 1);
          lower_bound' = ucast (ucast lower_bound
              + (current_range * symbol_range_low) div global_cumulative_frequency)
      in (lower_bound', upper_bound'))"

text \<open>The two tests of the renormalization loop, and the updates of the bounds.\<close>

definition msb_match :: "u32 \<Rightarrow> u32 \<Rightarrow> bool" where
  "msb_match lower_bound upper_bound \<longleftrightarrow> drop_bit 31 upper_bound = drop_bit 31 lower_bound"

definition underflow :: "u32 \<Rightarrow> u32 \<Rightarrow> bool" where
  "underflow lower_bound upper_bound \<longleftrightarrow>
     drop_bit 30 lower_bound AND 1 = 1 \<and> drop_bit 30 upper_bound AND 1 = 0"

definition shift_lower :: "u32 \<Rightarrow> u32" where
  "shift_lower lower_bound = push_bit 1 lower_bound"

definition shift_upper :: "u32 \<Rightarrow> u32" where
  "shift_upper upper_bound = push_bit 1 upper_bound OR 1"

definition splice_lower :: "u32 \<Rightarrow> u32" where
  "splice_lower lower_bound = push_bit 1 lower_bound AND (push_bit 31 1 - 1)"

definition splice_upper :: "u32 \<Rightarrow> u32" where
  "splice_upper upper_bound = push_bit 1 upper_bound OR push_bit 31 1 OR 1"

text \<open>
  The updates of the decoder's \<open>encoded_bits\<close> with the bit \<open>b\<close> just read: the plain
  shift, and the splice that keeps the top bit and drops the second.
\<close>

definition shift_window :: "u32 \<Rightarrow> u32 \<Rightarrow> u32" where
  "shift_window encoded_bits b = push_bit 1 encoded_bits OR b"

definition splice_window :: "u32 \<Rightarrow> u32 \<Rightarrow> u32" where
  "splice_window encoded_bits b =
     (let msb = drop_bit 31 encoded_bits;
          rest = encoded_bits AND 0x3fffffff
      in push_bit 31 msb OR push_bit 1 rest OR b)"

text \<open>\<open>for(int i = 0; i < underflow_counter; i++) stream.push_bit(!b);\<close>\<close>

fun push_copies :: "nat \<Rightarrow> u32 \<Rightarrow> OutputBitStream \<Rightarrow> OutputBitStream" where
  "push_copies 0 b stream = stream"
| "push_copies (Suc n) b stream = push_copies n b (push_bit_stream b stream)"

definition lnot :: "u32 \<Rightarrow> u32" where
  "lnot b = (if b = 0 then 1 else 0)"


section \<open>Termination of the renormalization loops\<close>

text \<open>
  Both bounds are shifted left in every iteration, with a 0 entering \<open>lower_bound\<close> and a 1
  entering \<open>upper_bound\<close>: the number of shifts that still separate \<open>lower_bound\<close> from
  all zeros and \<open>upper_bound\<close> from all ones decreases. This holds for every pair of
  words, ordered or not.
\<close>

definition zsteps :: "u32 \<Rightarrow> nat" where
  "zsteps w = (LEAST k. push_bit k w = 0)"

definition renorm_measure :: "u32 \<Rightarrow> u32 \<Rightarrow> nat" where
  "renorm_measure lo hi = zsteps lo + zsteps (NOT hi)"

lemma zsteps_zero: "push_bit (zsteps w) w = 0"
  unfolding zsteps_def
proof (rule LeastI)
  show "push_bit 32 w = 0" by simp
qed

lemma zsteps_le: "push_bit k w = 0 \<Longrightarrow> zsteps w \<le> k"
  unfolding zsteps_def by (rule Least_le)

lemma zsteps_pos: "w \<noteq> 0 \<Longrightarrow> 0 < zsteps w"
  using zsteps_zero [of w] by (cases "zsteps w") auto

lemma zsteps_shift:
  assumes "w \<noteq> 0"
  shows "zsteps (push_bit 1 w AND m) < zsteps w"
proof -
  from zsteps_pos [OF assms] obtain j where j: "zsteps w = Suc j"
    by (cases "zsteps w") auto
  have "push_bit j (push_bit 1 w AND m) = push_bit (Suc j) w AND push_bit j m"
    by (simp add: push_bit_and push_bit_push_bit)
  also have "\<dots> = 0"
    using zsteps_zero [of w] j by simp
  finally have "zsteps (push_bit 1 w AND m) \<le> j"
    by (rule zsteps_le)
  with j show ?thesis by simp
qed

lemma zsteps_shift_le: "zsteps (push_bit 1 w AND m) \<le> zsteps w"
  using zsteps_shift [of w m] by (cases "w = 0") (auto simp: zsteps_def)

lemma not_shift_upper: "NOT (shift_upper w) = push_bit 1 (NOT w) AND NOT 0"
  unfolding shift_upper_def
  apply (rule bit_word_eqI)
  apply (simp only: bit_simps)
  apply (auto simp: bit_simps simp del: push_bit_Suc)
  done

lemma not_splice_upper: "NOT (splice_upper w) = push_bit 1 (NOT w) AND NOT (push_bit 31 1)"
  unfolding splice_upper_def
  apply (rule bit_word_eqI)
  apply (simp only: bit_simps)
  apply auto
  done

lemma shift_lower_alt: "shift_lower w = push_bit 1 w AND NOT 0"
  unfolding shift_lower_def by simp

lemma renorm_measure_match:
  assumes "msb_match lo hi"
  shows "renorm_measure (shift_lower lo) (shift_upper hi) < renorm_measure lo hi"
proof -
  have "lo \<noteq> 0 \<or> NOT hi \<noteq> 0"
  proof (rule ccontr)
    assume "\<not> (lo \<noteq> 0 \<or> NOT hi \<noteq> 0)"
    then have "lo = 0" and "NOT hi = 0" by simp_all
    then have "lo = 0" and "hi = NOT 0" by (simp, metis bit.double_compl)
    with assms show False by (simp add: msb_match_def)
  qed
  then show ?thesis
    unfolding renorm_measure_def not_shift_upper shift_lower_alt
    using zsteps_shift [of lo "NOT 0"] zsteps_shift [of "NOT hi" "NOT 0"]
      zsteps_shift_le [of lo "NOT 0"] zsteps_shift_le [of "NOT hi" "NOT 0"]
    by linarith
qed

lemma renorm_measure_underflow:
  assumes "underflow lo hi"
  shows "renorm_measure (splice_lower lo) (splice_upper hi) < renorm_measure lo hi"
proof -
  have "lo \<noteq> 0" using assms by (auto simp: underflow_def)
  then show ?thesis
    unfolding renorm_measure_def not_splice_upper splice_lower_def
    using zsteps_shift [of lo "push_bit 31 1 - 1"]
      zsteps_shift_le [of "NOT hi" "NOT (push_bit 31 1)"]
    by linarith
qed

section \<open>The encoder (\<open>arith_compress.cpp\<close>)\<close>

text \<open>
  The inner \<open>while(1)\<close> loop. \<open>underflow_counter\<close> is an \<open>int\<close> that is never negative;
  incrementing it at \<open>INT_MAX\<close> is a signed overflow, which is an error of the model.
\<close>

function enc_renormalize ::
  "u32 \<Rightarrow> u32 \<Rightarrow> nat \<Rightarrow> OutputBitStream \<Rightarrow> error + (u32 \<times> u32 \<times> nat \<times> OutputBitStream)"
where
  "enc_renormalize lower_bound upper_bound underflow_counter stream =
     (if msb_match lower_bound upper_bound then
        (let b = drop_bit 31 upper_bound;
             stream1 = push_bit_stream b stream;
             stream2 = push_copies underflow_counter (lnot b) stream1
         in enc_renormalize (shift_lower lower_bound) (shift_upper upper_bound) 0 stream2)
      else if underflow lower_bound upper_bound then
        (if underflow_counter = INT_MAX then Inl signed_overflow
         else enc_renormalize (splice_lower lower_bound) (splice_upper upper_bound)
                (underflow_counter + 1) stream)
      else Inr (lower_bound, upper_bound, underflow_counter, stream))"
  by pat_completeness auto
termination
  by (relation "measure (\<lambda>(lo, hi, k, s). renorm_measure lo hi)")
    (auto simp: renorm_measure_match renorm_measure_underflow)

declare enc_renormalize.simps [simp del]

text \<open>One iteration of the outer loop, for the symbol that was read.\<close>

definition encode_symbol ::
  "u32 \<Rightarrow> u32 \<Rightarrow> u32 \<Rightarrow> nat \<Rightarrow> OutputBitStream \<Rightarrow> error + (u32 \<times> u32 \<times> nat \<times> OutputBitStream)"
where
  "encode_symbol symbol lower_bound upper_bound underflow_counter stream =
     (case enc_narrow lower_bound upper_bound symbol of
        (lower_bound', upper_bound') \<Rightarrow>
          enc_renormalize lower_bound' upper_bound' underflow_counter stream)"

text \<open>
  The outer loop over standard input: a byte is widened through \<open>unsigned char\<close>; when no
  byte is left the symbol is \<open>EOF_SYMBOL\<close> and the loop ends after it is coded.
\<close>

fun encode_loop ::
  "u8 list \<Rightarrow> u32 \<Rightarrow> u32 \<Rightarrow> nat \<Rightarrow> OutputBitStream \<Rightarrow> error + (u32 \<times> u32 \<times> nat \<times> OutputBitStream)"
where
  "encode_loop [] lower_bound upper_bound underflow_counter stream =
     encode_symbol EOF_SYMBOL lower_bound upper_bound underflow_counter stream"
| "encode_loop (raw_char # cin) lower_bound upper_bound underflow_counter stream =
     (case encode_symbol (ucast raw_char) lower_bound upper_bound underflow_counter stream of
        Inl e \<Rightarrow> Inl e
      | Inr (lower_bound', upper_bound', underflow_counter', stream') \<Rightarrow>
          encode_loop cin lower_bound' upper_bound' underflow_counter' stream')"

definition arith_compress :: "u8 list \<Rightarrow> error + u8 list" where
  "arith_compress cin =
     (case check_precision frequencies of
        Inl e \<Rightarrow> Inl e
      | Inr total_frequency \<Rightarrow>
         (case encode_loop cin 0 (NOT 0) 0 OutputBitStream_init of
            Inl e \<Rightarrow> Inl e
          | Inr (lower_bound, upper_bound, underflow_counter, stream) \<Rightarrow>
              Inr (outfile (flush_to_byte 1 (push_bit_stream 1 (push_bit_stream 0 stream))))))"

section \<open>The decoder (\<open>arith_decompress.cpp\<close>)\<close>

text \<open>\<open>for(int i = 0; i < 32; i++) encoded_bits = (encoded_bits<<1) | stream.read_bit();\<close>\<close>

fun read_window :: "nat \<Rightarrow> u32 \<Rightarrow> InputBitStream \<Rightarrow> u32 \<times> InputBitStream" where
  "read_window 0 encoded_bits stream = (encoded_bits, stream)"
| "read_window (Suc n) encoded_bits stream =
     (case read_bit stream of
        (b, stream') \<Rightarrow> read_window n (shift_window encoded_bits b) stream')"

lemma length_fold_update: "length (fold (\<lambda>i a. a[g i := f i a]) js a) = length a"
  by (induction js arbitrary: a) auto

lemma length_frequencies: "length frequencies = 257"
  unfolding frequencies_def set_vowels_def set_letters_def filled_def EOF_SYMBOL_def
  by (simp only: length_fold_update length_replicate) simp

lemma length_cumulative: "length (cumulative fs) = length fs + 1"
  by (simp add: cumulative_def length_fold_update)

lemma length_CF_low: "length CF_low = 258"
  by (simp add: CF_low_def length_cumulative length_frequencies)

text \<open>
  The linear search \<open>while(CF_low.at(symbol+1) <= scaled_symbol) symbol++;\<close>. The access is
  bounds-checked, so running off the end of the array throws.
\<close>

function find_symbol :: "u64 \<Rightarrow> u32 \<Rightarrow> error + u32" where
  "find_symbol scaled_symbol symbol =
     (if unat symbol + 1 < length CF_low then
        (if CF_low ! (unat symbol + 1) \<le> scaled_symbol
         then find_symbol scaled_symbol (symbol + 1)
         else Inr symbol)
      else Inl out_of_range)"
  by pat_completeness auto
termination
proof (relation "measure (\<lambda>(sc, s). 258 - unat s)")
  show "wf (measure (\<lambda>(sc, s). 258 - unat s))"
    by simp
next
  fix scaled_symbol :: u64 and symbol :: u32
  assume a: "unat symbol + 1 < length CF_low"
  then have "unat symbol + unat (1::u32) < 2 ^ LENGTH(32)"
    by (simp add: length_CF_low)
  then have "unat (symbol + 1) = unat symbol + unat (1::u32)"
    by (simp only: unat_add_lem)
  with a show "((scaled_symbol, symbol + 1), (scaled_symbol, symbol))
      \<in> measure (\<lambda>(sc, s). 258 - unat s)"
    by (simp add: length_CF_low)
qed

declare find_symbol.simps [simp del]

text \<open>
  The inner \<open>while(1)\<close> loop of the decoder: the same two cases on the bounds, each with
  one bit read into \<open>encoded_bits\<close>.
\<close>

function dec_renormalize ::
  "u32 \<Rightarrow> u32 \<Rightarrow> u32 \<Rightarrow> InputBitStream \<Rightarrow> u32 \<times> u32 \<times> u32 \<times> InputBitStream"
where
  "dec_renormalize lower_bound upper_bound encoded_bits stream =
     (if msb_match lower_bound upper_bound then
        (case read_bit stream of
           (b, stream') \<Rightarrow>
             dec_renormalize (shift_lower lower_bound) (shift_upper upper_bound)
               (shift_window encoded_bits b) stream')
      else if underflow lower_bound upper_bound then
        (case read_bit stream of
           (b, stream') \<Rightarrow>
             dec_renormalize (splice_lower lower_bound) (splice_upper upper_bound)
               (splice_window encoded_bits b) stream')
      else (lower_bound, upper_bound, encoded_bits, stream))"
  by pat_completeness auto
termination
  by (relation "measure (\<lambda>(lo, hi, w, s). renorm_measure lo hi)")
    (auto simp: renorm_measure_match renorm_measure_underflow)

declare dec_renormalize.simps [simp del]

text \<open>
  One iteration of the outer loop of the decoder: it stops with the output at the end
  marker, or continues with the new state, the decoded byte written to standard output.
\<close>

datatype dec_result =
  Finished "u8 list"
  | Continue u32 u32 u32 InputBitStream "u8 list"

definition decode_symbol ::
  "u32 \<Rightarrow> u32 \<Rightarrow> u32 \<Rightarrow> InputBitStream \<Rightarrow> u8 list \<Rightarrow> error + dec_result"
where
  "decode_symbol lower_bound upper_bound encoded_bits stream cout =
     (let current_range = (ucast upper_bound :: u64) - ucast lower_bound + 1
      in if current_range = 0 then Inl division_by_zero
         else
           (let scaled_symbol =
                  ((ucast encoded_bits - ucast lower_bound + 1) * global_cumulative_frequency - 1)
                    div current_range
            in case find_symbol scaled_symbol 0 of
                 Inl e \<Rightarrow> Inl e
               | Inr symbol \<Rightarrow>
                   if symbol = EOF_SYMBOL then Inr (Finished cout)
                   else
                     (case dec_narrow lower_bound upper_bound symbol of
                        (lower_bound', upper_bound') \<Rightarrow>
                          (case dec_renormalize lower_bound' upper_bound' encoded_bits stream of
                             (lower_bound'', upper_bound'', encoded_bits', stream') \<Rightarrow>
                               Inr (Continue lower_bound'' upper_bound'' encoded_bits' stream'
                                      (cout @ [ucast symbol]))))))"

text \<open>
  The outer \<open>while(1)\<close> loop has no bound: on a stream that never decodes to the end
  marker it runs forever, which is the value \<open>None\<close>.
\<close>

partial_function (option) decode_loop ::
  "u32 \<Rightarrow> u32 \<Rightarrow> u32 \<Rightarrow> InputBitStream \<Rightarrow> u8 list \<Rightarrow> (error + u8 list) option"
where
  "decode_loop lower_bound upper_bound encoded_bits stream cout =
     (case decode_symbol lower_bound upper_bound encoded_bits stream cout of
        Inl e \<Rightarrow> Some (Inl e)
      | Inr (Finished out) \<Rightarrow> Some (Inr out)
      | Inr (Continue lower_bound' upper_bound' encoded_bits' stream' cout') \<Rightarrow>
          decode_loop lower_bound' upper_bound' encoded_bits' stream' cout')"

declare decode_loop.simps [code]

definition arith_decompress :: "u8 list \<Rightarrow> (error + u8 list) option" where
  "arith_decompress cin =
     (case check_precision frequencies of
        Inl e \<Rightarrow> Some (Inl e)
      | Inr total_frequency \<Rightarrow>
         (case read_window 32 0 (InputBitStream_init cin) of
            (encoded_bits, stream) \<Rightarrow> decode_loop 0 (NOT 0) encoded_bits stream []))"


section \<open>Properties of the frequency model\<close>

text \<open>
  The weighting rule in the words of the specification (\<open>spec_weight\<close>: letters are the
  ranges A-Z and a-z) and as the loops of the programs write it (\<open>code_weight\<close>: every
  symbol from 65 to 122), over the ten vowels of the string \<open>vowels\<close>.
\<close>


definition is_vowel :: "nat \<Rightarrow> bool" where
  "is_vowel s \<longleftrightarrow> s \<in> {65, 69, 73, 79, 85, 97, 101, 105, 111, 117}"

definition is_ascii_letter :: "nat \<Rightarrow> bool" where
  "is_ascii_letter s \<longleftrightarrow> (65 \<le> s \<and> s \<le> 90) \<or> (97 \<le> s \<and> s \<le> 122)"

definition spec_weight :: "nat \<Rightarrow> u32" where
  "spec_weight s = (if is_vowel s then 4 else if is_ascii_letter s then 2 else 1)"

definition code_weight :: "nat \<Rightarrow> u32" where
  "code_weight s = (if is_vowel s then 4 else if 65 \<le> s \<and> s \<le> 122 then 2 else 1)"

lemma nth_fold_update:
  "s < length a \<Longrightarrow>
   fold (\<lambda>i a. a[g i := v]) js a ! s = (if s \<in> g ` set js then v else a ! s)"
  by (induction js arbitrary: a) auto

lemma vowel_codes: "of_char ` set vowels = {65, 69, 73, 79, 85, 97, 101, 105, 111, 117::nat}"
  by (simp add: vowels_def)

lemma set_letters_nth:
  assumes "s < length a"
  shows "set_letters a ! s = (if 65 \<le> s \<and> s \<le> 122 then 2 else a ! s)"
proof -
  have "set_letters a ! s = (if s \<in> (\<lambda>i. i) ` set [65..<123] then 2 else a ! s)"
    unfolding set_letters_def using assms by (rule nth_fold_update)
  also have "(\<lambda>i. i) ` set [65..<123] = {65..<123::nat}"
    by (simp only: set_upt image_ident)
  finally show ?thesis by auto
qed

lemma frequencies_nth:
  assumes "s < 257"
  shows "frequencies ! s = code_weight s"
proof -
  have l: "s < length filled" "s < length (set_letters filled)"
    using assms by (simp_all add: set_letters_def filled_def EOF_SYMBOL_def length_fold_update)
  have "frequencies ! s = (if s \<in> of_char ` set vowels then 4 else set_letters filled ! s)"
    unfolding frequencies_def set_vowels_def using l(2) by (rule nth_fold_update)
  also have "set_letters filled ! s = (if 65 \<le> s \<and> s \<le> 122 then 2 else 1)"
    using l(1) assms by (simp add: set_letters_nth) (simp add: filled_def EOF_SYMBOL_def)
  finally show ?thesis
    by (simp only: vowel_codes code_weight_def is_vowel_def)
qed

lemma cumulative_upto:
  fixes fs :: "u32 list"
  defines "f \<equiv> \<lambda>i (cf :: u64 list). cf[i := cf ! (i - 1) + ucast (fs ! (i - 1))]"
  assumes "n \<le> length fs"
  shows "length (fold f [1..<Suc n] (replicate (length fs + 1) 0)) = length fs + 1
    \<and> fold f [1..<Suc n] (replicate (length fs + 1) 0) ! 0 = 0
    \<and> (\<forall>k<n. fold f [1..<Suc n] (replicate (length fs + 1) 0) ! Suc k
          = fold f [1..<Suc n] (replicate (length fs + 1) 0) ! k + ucast (fs ! k))"
  using assms(2)
proof (induction n)
  case 0
  then show ?case by simp
next
  case (Suc n)
  define cf where "cf = fold f [1..<Suc n] (replicate (length fs + 1) 0)"
  have step: "fold f [1..<Suc (Suc n)] (replicate (length fs + 1) 0)
      = cf[Suc n := cf ! n + ucast (fs ! n)]"
    by (simp add: cf_def f_def)
  from Suc have ih: "length cf = length fs + 1" "cf ! 0 = 0"
    "\<And>k. k < n \<Longrightarrow> cf ! Suc k = cf ! k + ucast (fs ! k)"
    by (simp_all add: cf_def)
  have "cf[Suc n := cf ! n + ucast (fs ! n)] ! Suc k
      = cf[Suc n := cf ! n + ucast (fs ! n)] ! k + ucast (fs ! k)" if "k < Suc n" for k
  proof (cases "k = n")
    case True
    with Suc.prems ih(1) show ?thesis by simp
  next
    case False
    with that have "k < n" by simp
    with ih(3) [OF this] show ?thesis by simp
  qed
  with ih(1,2) show ?case
    unfolding step by simp
qed

lemma cumulative_0: "cumulative fs ! 0 = 0"
  using cumulative_upto [of "length fs" fs] by (simp add: cumulative_def)

lemma cumulative_Suc:
  "k < length fs \<Longrightarrow> cumulative fs ! Suc k = cumulative fs ! k + ucast (fs ! k)"
  using cumulative_upto [of "length fs" fs] by (simp add: cumulative_def)

lemma CF_low_0: "CF_low ! 0 = 0"
  by (simp add: CF_low_def cumulative_0)

lemma CF_low_Suc: "s < 257 \<Longrightarrow> CF_low ! Suc s = CF_low ! s + ucast (code_weight s)"
  by (simp add: CF_low_def cumulative_Suc length_frequencies frequencies_nth)

lemma gcf: "global_cumulative_frequency = 335"
  unfolding global_cumulative_frequency_def by code_simp


lemma check_precision_frequencies: "check_precision frequencies = Inr 335"
  using gcf
  by (simp add: check_precision_def length_frequencies global_cumulative_frequency_def
      CF_low_def EOF_SYMBOL_def)

section \<open>Claims about the frequency model\<close>

text \<open>
  C2, as the specification states it, fails: the loop over 65..122 also gives weight 2 to
  the six symbols 91..96 between the two ranges of letters.
\<close>

theorem weights_counterexample: "\<not> (\<forall>s<257. frequencies ! s = spec_weight s)"
proof
  assume "\<forall>s<257. frequencies ! s = spec_weight s"
  then have "frequencies ! 91 = spec_weight 91" by simp
  then show False
    by (simp add: frequencies_nth code_weight_def spec_weight_def is_vowel_def is_ascii_letter_def)
qed


text \<open>
  C2, amended: the table has 257 entries; the ten vowels have weight 4, every other
  symbol from 65 to 122 has weight 2, and every other symbol has weight 1. Both programs
  build the table with the same statements, so \<open>frequencies\<close> is the table of both.
\<close>

theorem frequency_weights:
  "length frequencies = 257 \<and>
   (\<forall>s<257. frequencies ! s
      = (if is_vowel s then 4 else if 65 \<le> s \<and> s \<le> 122 then 2 else 1))"
  using frequencies_nth by (simp add: length_frequencies code_weight_def)

theorem frequency_weights_witness:
  "(91::nat) < 257 \<and> frequencies ! 91 = 2 \<and> frequencies ! 65 = 4 \<and> frequencies ! 64 = 1"
  using frequency_weights by (simp add: is_vowel_def)

text \<open>
  C9: the check fails for every table whose total exceeds \<open>0xFFFFFFFF\<close>, and for the
  fixed table the total is 335, so the check passes.
\<close>

theorem precision_check:
  "(\<forall>fs. 0xffffffff < cumulative fs ! length fs \<longrightarrow> check_precision fs = Inl assertion_failed)
   \<and> check_precision frequencies = Inr 335"
  using check_precision_frequencies by (auto simp: check_precision_def Let_def)

theorem precision_check_witness:
  "0xffffffff < cumulative [0xffffffff, 1] ! length [0xffffffff, 1 :: u32]
   \<and> check_precision [0xffffffff, 1] = Inl assertion_failed"
proof -
  have h: "0xffffffff < cumulative [0xffffffff, 1] ! length [0xffffffff, 1 :: u32]"
    by (simp add: cumulative_def)
  with precision_check show ?thesis by blast
qed

section \<open>Claims about the bit source\<close>

text \<open>The state of the bit source once its byte stream is found empty.\<close>

definition exhausted :: InputBitStream where
  "exhausted = \<lparr>bitvec = 0, numbits = 0, infile = [], done_flag = True, last_real_bit = 0\<rparr>"

lemma read_bit_init_empty: "read_bit (InputBitStream_init []) = (0, exhausted)"
  by (simp add: read_bit_def InputBitStream_init_def input_byte_def exhausted_def)

lemma read_bit_exhausted: "read_bit exhausted = (0, exhausted)"
  by (simp add: read_bit_def exhausted_def)

lemma reads_empty:
  "((snd \<circ> read_bit) ^^ n) (InputBitStream_init []) = (if n = 0 then InputBitStream_init [] else exhausted)"
  by (induction n) (simp_all add: read_bit_init_empty read_bit_exhausted)

lemma read_window_exhausted: "read_window n 0 exhausted = (0, exhausted)"
  by (induction n) (simp_all add: read_bit_exhausted shift_window_def)

text \<open>
  C10: on an empty byte stream every call of \<open>read_bit\<close>, the first and each later one,
  returns 0 (the function has no error result), and the 32 bits read into the decoder's
  window are 0.
\<close>

theorem empty_stream_reads_zero:
  "(\<forall>n. fst (read_bit (((snd \<circ> read_bit) ^^ n) (InputBitStream_init []))) = 0)
   \<and> fst (read_window 32 0 (InputBitStream_init [])) = 0"
proof -
  have "shift_window 0 0 = 0"
    by (simp add: shift_window_def)
  then have "read_window (Suc 31) 0 (InputBitStream_init []) = read_window 31 0 exhausted"
    by (simp only: read_window.simps read_bit_init_empty prod.case)
  moreover have "(32::nat) = Suc 31"
    by simp
  ultimately have "read_window 32 0 (InputBitStream_init []) = (0, exhausted)"
    by (simp only: read_window_exhausted)
  then show ?thesis
    by (simp add: reads_empty read_bit_init_empty read_bit_exhausted)
qed

section \<open>Arithmetic of the interval update\<close>

text \<open>The cumulative frequencies as natural numbers.\<close>

definition cf :: "nat \<Rightarrow> nat" where
  "cf s = unat (CF_low ! s)"

lemma unat_code_weight: "unat (ucast (code_weight s) :: u64) \<le> 4" "1 \<le> unat (ucast (code_weight s) :: u64)"
  by (simp_all add: code_weight_def)

lemma cf_0: "cf 0 = 0"
  by (simp add: cf_def CF_low_0)

lemma cf_bound_Suc: "s \<le> 257 \<Longrightarrow> cf s \<le> 4 * s \<and> (s < 257 \<longrightarrow> cf (Suc s) = cf s + unat (ucast (code_weight s) :: u64))"
proof (induction s)
  case 0
  then show ?case by (simp add: cf_def CF_low_0 CF_low_Suc)
next
  case (Suc s)
  then have ih: "cf s \<le> 4 * s" "cf (Suc s) = cf s + unat (ucast (code_weight s) :: u64)"
    by simp_all
  have b: "cf (Suc s) \<le> 4 * Suc s"
    using ih unat_code_weight(1) [of s] by simp
  have "cf (Suc (Suc s)) = cf (Suc s) + unat (ucast (code_weight (Suc s)) :: u64)" if "Suc s < 257"
  proof -
    have "cf (Suc s) + unat (ucast (code_weight (Suc s)) :: u64) < 2 ^ LENGTH(64)"
      using b unat_code_weight(1) [of "Suc s"] that by simp
    then show ?thesis
      using that unfolding cf_def by (simp only: CF_low_Suc unat_add_lem [THEN iffD1])
  qed
  with b show ?case by simp
qed

lemma cf_Suc: "s < 257 \<Longrightarrow> cf (Suc s) = cf s + unat (ucast (code_weight s) :: u64)"
  using cf_bound_Suc [of s] by simp

lemma cf_less_Suc: "s < 257 \<Longrightarrow> cf s < cf (Suc s)"
  using cf_Suc [of s] unat_code_weight(2) [of s] by simp

lemma cf_mono: "i \<le> j \<Longrightarrow> j \<le> 257 \<Longrightarrow> cf i \<le> cf j"
proof (induction j)
  case 0
  then show ?case by simp
next
  case (Suc j)
  then show ?case
    using cf_less_Suc [of j] by (cases "i = Suc j") auto
qed

lemma cf_257: "cf 257 = 335"
  using gcf by (simp add: cf_def global_cumulative_frequency_def EOF_SYMBOL_def)

lemma cf_le_total: "s \<le> 257 \<Longrightarrow> cf s \<le> 335"
  using cf_mono [of s 257] by (simp add: cf_257)

lemma dec_narrow_eq: "dec_narrow lo hi s = enc_narrow lo hi s"
proof -
  have e: "(ucast hi :: u64) - ucast lo + 1 = ucast hi + 1 - ucast lo"
    by simp
  show ?thesis
    unfolding dec_narrow_def enc_narrow_def e ..
qed

lemma unat_ucast_up: "unat (ucast (x :: u32) :: u64) = unat x"
proof -
  have "unat x < 2 ^ 32"
    using unsigned_less [of x] by simp
  then have "unat x < 2 ^ 64"
    by simp
  then show ?thesis
    by (simp add: unsigned_ucast_eq take_bit_eq_mod)
qed

lemma unat_range:
  assumes "lo \<le> (hi :: u32)"
  shows "unat ((ucast hi :: u64) + 1 - ucast lo) = unat hi - unat lo + 1"
proof -
  have h: "unat hi < 2 ^ 32" "unat lo \<le> unat hi"
    using assms unsigned_less [of hi] by (simp_all add: word_le_nat_alt)
  have 1: "unat ((ucast hi :: u64) + 1) = unat hi + 1"
    using h by (simp add: unat_word_ariths unsigned_ucast_eq take_bit_eq_mod)
  have "(ucast lo :: u64) \<le> ucast hi + 1"
    using h by (simp add: word_le_nat_alt 1 unsigned_ucast_eq take_bit_eq_mod)
  then have "unat ((ucast hi :: u64) + 1 - ucast lo) = unat ((ucast hi :: u64) + 1) - unat (ucast lo :: u64)"
    by (rule unat_sub)
  with h show ?thesis
    by (simp add: 1 unsigned_ucast_eq take_bit_eq_mod)
qed

lemma unat_scaled_part:
  fixes lo hi :: u32
  assumes "lo \<le> hi" and "j \<le> 257"
  shows "unat (((ucast hi :: u64) + 1 - ucast lo) * (CF_low ! j) div global_cumulative_frequency)
     = ((unat hi - unat lo + 1) * cf j) div 335"
proof -
  have h: "unat hi < 2 ^ 32" "unat lo \<le> unat hi"
    using assms unsigned_less [of hi] by (simp_all add: word_le_nat_alt)
  have "(unat hi - unat lo + 1) * cf j \<le> 2 ^ 32 * 335"
    using h cf_le_total [OF assms(2)] by (intro mult_mono) simp_all
  then have "unat ((ucast hi :: u64) + 1 - ucast lo) * unat (CF_low ! j) < 2 ^ LENGTH(64)"
    by (simp add: unat_range [OF assms(1)] cf_def)
  then have "unat (((ucast hi :: u64) + 1 - ucast lo) * (CF_low ! j))
      = (unat hi - unat lo + 1) * cf j"
    by (simp only: unat_mult_lem [THEN iffD1] unat_range [OF assms(1)] cf_def)
  then show ?thesis
    by (simp add: unat_div gcf)
qed


lemma unat_succ_symbol: "unat (s :: u32) \<le> 256 \<Longrightarrow> unat (s + 1) = unat s + 1"
  by (simp add: unat_word_ariths)

lemma narrow_nat:
  fixes lo hi s :: u32
  assumes le: "lo \<le> hi" and s: "unat s \<le> 256"
    and wide: "335 \<le> unat hi - unat lo + 1"
  defines "R \<equiv> unat hi - unat lo + 1"
  shows "unat (fst (enc_narrow lo hi s)) = unat lo + (R * cf (unat s)) div 335"
    and "unat (snd (enc_narrow lo hi s)) = unat lo + (R * cf (unat s + 1)) div 335 - 1"
proof -
  have h: "unat hi < 2 ^ 32" "unat lo \<le> unat hi"
    using le unsigned_less [of hi] by (simp_all add: word_le_nat_alt)
  have q: "(R * cf j) div 335 \<le> R" if "j \<le> 257" for j
  proof -
    have "R * cf j \<le> R * 335"
      using cf_le_total [OF that] by simp
    then have "(R * cf j) div 335 \<le> (R * 335) div 335"
      by (rule div_le_mono)
    then show ?thesis by simp
  qed
  have sum: "unat ((ucast lo :: u64)
        + (ucast hi + 1 - ucast lo) * (CF_low ! j) div global_cumulative_frequency)
      = unat lo + (R * cf j) div 335" if "j \<le> 257" for j
  proof -
    have "unat lo + (R * cf j) div 335 \<le> unat hi + 1"
      using q [OF that] h by (simp add: R_def)
    then have "unat (ucast lo :: u64) + (R * cf j) div 335 < 2 ^ LENGTH(64)"
      using h by (simp add: unat_ucast_up)
    then show ?thesis
      unfolding R_def unat_scaled_part [OF le that, symmetric]
      by (simp only: unat_add_lem [THEN iffD1] unat_ucast_up)
  qed
  have lo': "fst (enc_narrow lo hi s) = ucast ((ucast lo :: u64)
        + (ucast hi + 1 - ucast lo) * (CF_low ! unat s) div global_cumulative_frequency)"
    by (simp add: enc_narrow_def Let_def)
  have "cf (unat s) < 335"
    using cf_less_Suc [of "unat s"] cf_le_total [of "Suc (unat s)"] s by simp
  moreover have "0 < R"
    by (simp add: R_def)
  ultimately have "R * cf (unat s) < R * 335"
    by simp
  then have "(R * cf (unat s)) div 335 < R"
    by (simp add: less_mult_imp_div_less)
  then have "unat lo + (R * cf (unat s)) div 335 < 2 ^ 32"
    using h by (simp add: R_def)
  then show "unat (fst (enc_narrow lo hi s)) = unat lo + (R * cf (unat s)) div 335"
    using s unfolding lo'
    by (simp add: unsigned_ucast_eq [where 'c = 32] take_bit_eq_mod sum)
  have hi': "snd (enc_narrow lo hi s) = ucast ((ucast lo :: u64)
        + (ucast hi + 1 - ucast lo) * (CF_low ! (unat s + 1)) div global_cumulative_frequency - 1)"
    by (simp add: enc_narrow_def Let_def unat_succ_symbol [OF s])
  have "R * 1 \<le> R * cf (unat s + 1)"
    using cf_less_Suc [of "unat s"] s by (intro mult_le_mono2) simp
  then have "335 \<le> R * cf (unat s + 1)"
    using wide by (simp add: R_def)
  then have pos: "1 \<le> (R * cf (unat s + 1)) div 335"
    by (simp add: Suc_le_eq div_greater_zero_iff)
  define x :: u64 where "x = ucast lo
        + (ucast hi + 1 - ucast lo) * (CF_low ! (unat s + 1)) div global_cumulative_frequency"
  have x: "unat x = unat lo + (R * cf (unat s + 1)) div 335"
    unfolding x_def using s by (intro sum) simp
  then have "1 \<le> x"
    using pos by (simp add: word_le_nat_alt)
  then have "unat (x - 1) = unat x - 1"
    by (simp add: unat_sub)
  moreover have "unat x - 1 < 2 ^ 32"
    using q [of "unat s + 1"] s h pos by (simp add: x R_def)
  ultimately show "unat (snd (enc_narrow lo hi s)) = unat lo + (R * cf (unat s + 1)) div 335 - 1"
    unfolding hi' x_def [symmetric]
    by (simp add: unsigned_ucast_eq [where 'c = 32] take_bit_eq_mod x)
qed

lemma narrow_pos:
  fixes lo hi s :: u32
  assumes "unat s \<le> 256" and "335 \<le> R"
  shows "(R * cf (unat s)) div 335 < (R * cf (unat s + 1)) div 335"
proof -
  have "cf (unat s) + 1 \<le> cf (unat s + 1)"
    using cf_less_Suc [of "unat s"] assms(1) by simp
  then have "R * (cf (unat s) + 1) \<le> R * cf (unat s + 1)"
    by (rule mult_le_mono2)
  then have "R * cf (unat s) + 335 \<le> R * cf (unat s + 1)"
    using assms(2) by (simp add: algebra_simps)
  then have "(R * cf (unat s) + 335) div 335 \<le> (R * cf (unat s + 1)) div 335"
    by (rule div_le_mono)
  then show ?thesis by simp
qed

lemma narrow_order:
  fixes lo hi s :: u32
  assumes le: "lo \<le> hi" and s: "unat s \<le> 256"
    and wide: "335 \<le> unat hi - unat lo + 1"
  shows "lo \<le> fst (enc_narrow lo hi s)"
    and "fst (enc_narrow lo hi s) \<le> snd (enc_narrow lo hi s)"
    and "snd (enc_narrow lo hi s) \<le> hi"
proof -
  define R where "R = unat hi - unat lo + 1"
  have h: "unat lo \<le> unat hi"
    using le by (simp add: word_le_nat_alt)
  have "R * cf (unat s + 1) \<le> R * 335"
    using cf_le_total [of "unat s + 1"] s by simp
  then have "(R * cf (unat s + 1)) div 335 \<le> (R * 335) div 335"
    by (rule div_le_mono)
  then have up: "(R * cf (unat s + 1)) div 335 \<le> R"
    by simp
  note n = narrow_nat [OF assms, folded R_def] narrow_pos [OF s wide [folded R_def]]
  show "lo \<le> fst (enc_narrow lo hi s)"
    by (simp add: word_le_nat_alt n)
  show "fst (enc_narrow lo hi s) \<le> snd (enc_narrow lo hi s)"
    using n(3) by (simp add: word_le_nat_alt n(1,2))
  show "snd (enc_narrow lo hi s) \<le> hi"
    using up h by (simp add: word_le_nat_alt n(1,2) R_def)
qed

text \<open>
  C4: in every state with \<open>lower_bound \<le> upper_bound\<close> whose range is at least the total
  frequency (every state in which the programs narrow the interval, see the invariant
  below), the new bounds are exactly the integer expressions of the specification: the
  64-bit intermediate values do not wrap and the truncation to 32 bits loses nothing.
  The decoder's update is the encoder's.
\<close>

theorem narrow_formula:
  fixes lower_bound upper_bound symbol :: u32
  assumes "lower_bound \<le> upper_bound" and "symbol \<le> EOF_SYMBOL"
    and "uint global_cumulative_frequency \<le> uint upper_bound - uint lower_bound + 1"
  shows "dec_narrow lower_bound upper_bound symbol = enc_narrow lower_bound upper_bound symbol
    \<and> uint (snd (enc_narrow lower_bound upper_bound symbol))
        = uint lower_bound
          + ((uint upper_bound - uint lower_bound + 1) * uint (CF_low ! (unat symbol + 1)))
              div uint global_cumulative_frequency - 1
    \<and> uint (fst (enc_narrow lower_bound upper_bound symbol))
        = uint lower_bound
          + ((uint upper_bound - uint lower_bound + 1) * uint (CF_low ! unat symbol))
              div uint global_cumulative_frequency"
proof -
  define R where "R = unat upper_bound - unat lower_bound + 1"
  have h: "unat lower_bound \<le> unat upper_bound"
    using assms(1) by (simp add: word_le_nat_alt)
  have s: "unat symbol \<le> 256"
    using assms(2) by (simp add: word_le_nat_alt EOF_SYMBOL_def)
  have R: "int R = uint upper_bound - uint lower_bound + 1"
    using h by (simp add: R_def of_nat_diff)
  have wide: "335 \<le> unat upper_bound - unat lower_bound + 1"
    using assms(3) R by (simp add: gcf R_def)
  note n = narrow_nat [OF assms(1) s wide, folded R_def] narrow_pos [OF s wide [folded R_def]]
  have "int (unat (snd (enc_narrow lower_bound upper_bound symbol)))
      = int (unat lower_bound) + (int R * int (cf (unat symbol + 1))) div 335 - 1"
    using n(3) by (simp add: n(2) zdiv_int)
  moreover have "int (unat (fst (enc_narrow lower_bound upper_bound symbol)))
      = int (unat lower_bound) + (int R * int (cf (unat symbol))) div 335"
    by (simp add: n(1) zdiv_int)
  ultimately show ?thesis
    by (simp add: dec_narrow_eq R gcf cf_def)
qed

lemma CF_low_256: "CF_low ! 256 = 334"
  using CF_low_Suc [of 256] gcf
  by (simp add: global_cumulative_frequency_def EOF_SYMBOL_def code_weight_def is_vowel_def)

theorem narrow_formula_witness:
  "(0::u32) \<le> 0xFFFFFFFF \<and> EOF_SYMBOL \<le> EOF_SYMBOL
   \<and> uint global_cumulative_frequency \<le> uint (0xFFFFFFFF :: u32) - uint (0 :: u32) + 1
   \<and> dec_narrow 0 0xFFFFFFFF EOF_SYMBOL = enc_narrow 0 0xFFFFFFFF EOF_SYMBOL
   \<and> uint (snd (enc_narrow 0 0xFFFFFFFF EOF_SYMBOL)) = 4294967295
   \<and> uint (fst (enc_narrow 0 0xFFFFFFFF EOF_SYMBOL)) = 4282146498"
proof -
  have c: "CF_low ! 256 = 334" "CF_low ! 257 = 335"
    using CF_low_256 gcf by (simp_all add: global_cumulative_frequency_def EOF_SYMBOL_def)
  have h: "(0::u32) \<le> 0xFFFFFFFF" "EOF_SYMBOL \<le> EOF_SYMBOL"
    "uint global_cumulative_frequency \<le> uint (0xFFFFFFFF :: u32) - uint (0 :: u32) + 1"
    by (simp_all add: gcf)
  from narrow_formula [OF h] h show ?thesis
    by (simp add: gcf EOF_SYMBOL_def c)
qed

section \<open>The renormalization updates, bit by bit and as numbers\<close>

lemma msb_match_iff: "msb_match lo hi \<longleftrightarrow> (bit lo 31 \<longleftrightarrow> bit hi 31)"
proof -
  have d: "drop_bit 31 x = of_bool (bit x 31)" for x :: u32
  proof (rule bit_word_eqI)
    fix n
    show "bit (drop_bit 31 x) n \<longleftrightarrow> bit (of_bool (bit x 31) :: u32) n"
    proof (cases "n = 0")
      case True
      then show ?thesis by (simp add: bit_simps)
    next
      case False
      then have "\<not> bit x (31 + n)"
        using bit_imp_le_length [of x "31 + n"] by auto
      with False show ?thesis by (simp add: bit_simps)
    qed
  qed
  show ?thesis
    by (auto simp: msb_match_def d)
qed

lemma underflow_iff: "underflow lo hi \<longleftrightarrow> bit lo 30 \<and> \<not> bit hi 30"
  by (simp add: underflow_def and_one_eq bit_iff_odd_drop_bit odd_iff_mod_2_eq_one
      even_iff_mod_2_eq_zero)

lemma bit_shift_lower: "bit (shift_lower lo) i \<longleftrightarrow> 0 < i \<and> i < 32 \<and> bit lo (i - 1)"
  unfolding shift_lower_def by (simp only: bit_simps) auto

lemma bit_shift_upper: "bit (shift_upper hi) i \<longleftrightarrow> i = 0 \<or> (i < 32 \<and> bit hi (i - 1))"
  unfolding shift_upper_def by (simp only: bit_simps) auto

lemma bit_splice_lower: "bit (splice_lower lo) i \<longleftrightarrow> 0 < i \<and> i < 31 \<and> bit lo (i - 1)"
proof -
  have m: "push_bit 31 1 - 1 = (mask 31 :: u32)"
    by (simp add: mask_eq_exp_minus_1)
  show ?thesis
    unfolding splice_lower_def m by (simp only: bit_simps) auto
qed

lemma bit_splice_upper:
  "bit (splice_upper hi) i \<longleftrightarrow> i = 0 \<or> i = 31 \<or> (i < 32 \<and> bit hi (i - 1))"
  unfolding splice_upper_def by (simp only: bit_simps) auto

lemma bit_le_1: "b \<le> 1 \<Longrightarrow> bit (b :: u32) i \<longleftrightarrow> i = 0 \<and> b = 1"
proof -
  assume "b \<le> 1"
  then have "b = 0 \<or> b = 1"
    by (auto simp: word_le_nat_alt word_unat_eq_iff)
  then show ?thesis
    by (auto simp: bit_simps)
qed

lemma bit_shift_window:
  "b \<le> 1 \<Longrightarrow> bit (shift_window w b) i \<longleftrightarrow> (i = 0 \<and> b = 1) \<or> (0 < i \<and> i < 32 \<and> bit w (i - 1))"
  unfolding shift_window_def by (simp only: bit_simps bit_le_1) auto

lemma bit_splice_window:
  "b \<le> 1 \<Longrightarrow> bit (splice_window w b) i \<longleftrightarrow>
     (i = 0 \<and> b = 1) \<or> (i = 31 \<and> bit w 31) \<or> (0 < i \<and> i < 31 \<and> bit w (i - 1))"
proof -
  assume b: "b \<le> 1"
  have m: "(0x3fffffff :: u32) = mask 30"
    by (simp add: mask_eq_exp_minus_1)
  show ?thesis
    unfolding splice_window_def Let_def m using b
    by (simp only: bit_simps bit_le_1) auto
qed


lemma bit_iff_odd_unat: "bit (x :: u32) n \<longleftrightarrow> odd (unat x div 2 ^ n)"
proof -
  have "bit x n \<longleftrightarrow> bit (unat x) n"
    by (simp add: bit_unsigned_iff)
  also have "\<dots> \<longleftrightarrow> odd (unat x div 2 ^ n)"
    by (rule bit_iff_odd)
  finally show ?thesis .
qed

lemma div_bounds: "(x::nat) div 2 ^ n * 2 ^ n \<le> x" "x < 2 ^ n + x div 2 ^ n * 2 ^ n"
  by (simp_all add: dividend_less_div_times)

lemma bit_31_iff: "bit (x :: u32) 31 \<longleftrightarrow> 2 ^ 31 \<le> unat x"
proof -
  define q where "q = unat x div 2 ^ 31"
  have "unat x < 2 ^ 32"
    using unsigned_less [of x] by simp
  with div_bounds [of "unat x" 31] have "q = 0 \<and> unat x < 2 ^ 31 \<or> q = 1 \<and> 2 ^ 31 \<le> unat x"
    unfolding q_def [symmetric] by simp linarith
  then have "odd q \<longleftrightarrow> 2 ^ 31 \<le> unat x"
    by auto
  then show ?thesis
    by (simp only: bit_iff_odd_unat q_def)
qed

lemma bit_30_low: "unat (x :: u32) < 2 ^ 31 \<Longrightarrow> bit x 30 \<longleftrightarrow> 2 ^ 30 \<le> unat x"
proof -
  assume a: "unat x < 2 ^ 31"
  define q where "q = unat x div 2 ^ 30"
  from a div_bounds [of "unat x" 30]
  have "q = 0 \<and> unat x < 2 ^ 30 \<or> q = 1 \<and> 2 ^ 30 \<le> unat x"
    unfolding q_def [symmetric] by simp linarith
  then have "odd q \<longleftrightarrow> 2 ^ 30 \<le> unat x"
    by auto
  then show ?thesis
    by (simp only: bit_iff_odd_unat q_def)
qed

lemma bit_30_high: "2 ^ 31 \<le> unat (x :: u32) \<Longrightarrow> bit x 30 \<longleftrightarrow> 3 * 2 ^ 30 \<le> unat x"
proof -
  assume a: "2 ^ 31 \<le> unat x"
  define q where "q = unat x div 2 ^ 30"
  have "unat x < 2 ^ 32"
    using unsigned_less [of x] by simp
  with a div_bounds [of "unat x" 30]
  have "q = 2 \<and> unat x < 3 * 2 ^ 30 \<or> q = 3 \<and> 3 * 2 ^ 30 \<le> unat x"
    unfolding q_def [symmetric] by simp linarith
  then have "odd q \<longleftrightarrow> 3 * 2 ^ 30 \<le> unat x"
    by auto
  then show ?thesis
    by (simp only: bit_iff_odd_unat q_def)
qed

lemma unat_push_bit_1: "unat (push_bit 1 (w :: u32)) = (2 * unat w) mod 2 ^ 32"
proof -
  have "push_bit 1 w = 2 * w"
    by simp
  then show ?thesis
    by (simp only: unat_word_ariths) simp
qed

lemma unat_shift_lower: "unat (shift_lower lo) = (2 * unat lo) mod 2 ^ 32"
  by (simp only: shift_lower_def unat_push_bit_1)

lemma double_mod: "(2 * x) mod 2 ^ Suc n = 2 * (x mod 2 ^ n)" for x :: nat
  unfolding power_Suc by (rule mult_mod_right [symmetric])

lemma unat_shift_window:
  assumes "b \<le> 1"
  shows "unat (shift_window w b) = (2 * unat w) mod 2 ^ 32 + unat b"
proof -
  have "push_bit 1 w AND b = 0"
    apply (rule bit_word_eqI)
    apply (simp only: bit_simps bit_le_1 [OF assms])
    apply auto
    done
  then have "shift_window w b = push_bit 1 w + b"
    unfolding shift_window_def by (simp only: disjunctive_add_eq_or)
  moreover have "unat b \<le> 1"
    using assms by (simp add: word_le_nat_alt)
  moreover have "unat w mod 2 ^ 31 < 2 ^ 31"
    by simp
  then have "(2 * unat w) mod 2 ^ 32 \<le> 2 ^ 32 - 2"
    using double_mod [of "unat w" 31] by simp
  ultimately show ?thesis
    by (simp only: unat_word_ariths unat_push_bit_1) simp
qed

lemma unat_shift_upper: "unat (shift_upper hi) = (2 * unat hi) mod 2 ^ 32 + 1"
  using unat_shift_window [of 1 hi] by (simp add: shift_window_def shift_upper_def)

lemma unat_or_disjoint:
  fixes a b :: u32
  assumes "a AND b = 0"
  shows "unat (a OR b) = unat a + unat b"
proof -
  have "unat a AND unat b = unat (a AND b)"
    by (simp only: unsigned_and_eq)
  then have "unat a AND unat b = 0"
    by (simp add: assms)
  then have "unat a + unat b = unat a OR unat b"
    by (rule disjunctive_add_eq_or)
  then show ?thesis
    by (simp only: unsigned_or_eq)
qed

lemma unat_take_push:
  "unat (take_bit (Suc n) (push_bit 1 (w :: u32))) = (2 * unat w) mod 2 ^ Suc n" if "n < 32"
proof -
  have "(2 :: nat) ^ Suc n dvd 2 ^ 32"
    using that by (intro le_imp_power_dvd) simp
  then have "((2 * unat w) mod 2 ^ 32) mod 2 ^ Suc n = (2 * unat w) mod 2 ^ Suc n"
    by (rule mod_mod_cancel)
  moreover have "unat (take_bit (Suc n) (push_bit 1 w))
      = take_bit (Suc n) (unat (push_bit 1 w))"
    by (rule unsigned_take_bit_eq)
  ultimately show ?thesis
    by (simp only: take_bit_eq_mod unat_push_bit_1)
qed

lemma unat_splice_lower: "unat (splice_lower lo) = (2 * unat lo) mod 2 ^ 31"
proof -
  have m: "push_bit 31 1 - 1 = (mask 31 :: u32)"
    by (simp add: mask_eq_exp_minus_1)
  have "splice_lower lo = take_bit (Suc 30) (push_bit 1 lo)"
    unfolding splice_lower_def m by (simp only: take_bit_eq_mask) simp
  then show ?thesis
    using unat_take_push [of 30 lo] by simp
qed

lemma unat_splice_upper: "unat (splice_upper hi) = (2 * unat hi) mod 2 ^ 31 + 2 ^ 31 + 1"
proof -
  define y where "y = take_bit (Suc 30) (push_bit 1 hi)"
  have 1: "splice_upper hi = (y OR push_bit 31 1) OR 1"
    unfolding splice_upper_def y_def
    apply (rule bit_word_eqI)
    apply (simp only: bit_simps)
    apply auto
    done
  have 2: "y AND push_bit 31 1 = 0"
    unfolding y_def
    apply (rule bit_word_eqI)
    apply (simp only: bit_simps)
    apply auto
    done
  have 3: "(y OR push_bit 31 1) AND 1 = 0"
    unfolding y_def
    apply (rule bit_word_eqI)
    apply (simp only: bit_simps)
    apply auto
    done
  have "unat (splice_upper hi) = unat y + unat (push_bit 31 1 :: u32) + unat (1 :: u32)"
    unfolding 1 by (simp only: unat_or_disjoint [OF 3] unat_or_disjoint [OF 2])
  then show ?thesis
    using unat_take_push [of 30 hi] by (simp add: y_def)
qed

lemma unat_splice_window:
  assumes "b \<le> 1"
  shows "unat (splice_window w b) = (unat w div 2 ^ 31) * 2 ^ 31 + (2 * unat w) mod 2 ^ 31 + unat b"
proof -
  define y where "y = take_bit (Suc 30) (push_bit 1 w)"
  define v where "v = drop_bit 31 w"
  define z where "z = push_bit 31 v"
  have m: "(0x3fffffff :: u32) = mask 30"
    by (simp add: mask_eq_exp_minus_1)
  have 1: "splice_window w b = (z OR y) OR b"
    unfolding splice_window_def y_def z_def v_def Let_def m
    apply (rule bit_word_eqI)
    apply (simp only: bit_simps)
    apply auto
    done
  have 2: "z AND y = 0"
    unfolding y_def z_def v_def
    apply (rule bit_word_eqI)
    apply (simp only: bit_simps)
    apply auto
    done
  have 3: "(z OR y) AND b = 0"
    unfolding y_def z_def v_def
    apply (rule bit_word_eqI)
    apply (simp only: bit_simps bit_le_1 [OF assms])
    apply auto
    done
  have "unat w < 2 ^ 32"
    using unsigned_less [of w] by simp
  then have "unat w div 2 ^ 31 < 2"
    by (simp add: less_mult_imp_div_less)
  then have "unat w div 2 ^ 31 * 2 ^ 31 < 2 ^ 32"
    by simp
  moreover have "unat v = unat w div 2 ^ 31"
    unfolding v_def by (simp only: unat_drop_bit_eq) (simp only: drop_bit_eq_div)
  moreover have "unat z = (unat v * 2 ^ 31) mod 2 ^ 32"
    unfolding z_def by (simp add: push_bit_eq_mult unat_word_ariths)
  ultimately have z: "unat z = unat w div 2 ^ 31 * 2 ^ 31"
    by simp
  have "unat (splice_window w b) = unat z + unat y + unat b"
    unfolding 1 by (simp only: unat_or_disjoint [OF 3] unat_or_disjoint [OF 2])
  then show ?thesis
    using unat_take_push [of 30 w] by (simp add: y_def z)
qed

lemma div_range:
  fixes x n k :: nat
  assumes "k * n \<le> x" and "x < k * n + n"
  shows "x div n = k"
  using assms by (intro div_nat_eqI) (simp_all add: mult.commute)

lemma mod_range:
  fixes x n k :: nat
  assumes "k * n \<le> x" and "x < k * n + n"
  shows "x mod n = x - k * n"
  using div_range [OF assms] by (simp add: modulo_nat_def mult.commute)

lemma unat_lt32: "unat (x :: u32) < 2 ^ 32"
  using unsigned_less [of x] by simp

lemma double_mod32_high:
  "2147483648 \<le> x \<Longrightarrow> x < 4294967296 \<Longrightarrow> (2 * x) mod 4294967296 = 2 * (x::nat) - 4294967296"
  using mod_range [of 1 4294967296 "2 * x"] by simp

lemma double_mod31_low:
  "1073741824 \<le> x \<Longrightarrow> x < 2147483648 \<Longrightarrow> (2 * x) mod 2147483648 = 2 * (x::nat) - 2147483648"
  using mod_range [of 1 2147483648 "2 * x"] by simp

lemma double_mod31_high:
  "2147483648 \<le> x \<Longrightarrow> x < 3221225472 \<Longrightarrow> (2 * x) mod 2147483648 = 2 * (x::nat) - 4294967296"
  using mod_range [of 2 2147483648 "2 * x"] by simp

lemma div31_high: "2147483648 \<le> x \<Longrightarrow> x < 4294967296 \<Longrightarrow> x div 2147483648 = (1::nat)"
  using div_range [of 1 2147483648 x] by simp

text \<open>
  The state in which the inner loop ends: the bounds are ordered, their top bits differ
  and the underflow test fails. The initial bounds are of this kind too.
\<close>

definition normalized :: "u32 \<Rightarrow> u32 \<Rightarrow> bool" where
  "normalized lo hi \<longleftrightarrow> lo \<le> hi \<and> \<not> msb_match lo hi \<and> \<not> underflow lo hi"

lemma match_cases:
  assumes "lo \<le> w" and "w \<le> hi" and "msb_match lo hi"
  shows "unat hi < 2 ^ 31 \<or> 2 ^ 31 \<le> unat lo"
  using assms unfolding msb_match_iff bit_31_iff word_le_nat_alt by linarith

lemma no_match_bounds:
  assumes "lo \<le> hi" and "\<not> msb_match lo hi"
  shows "unat lo < 2 ^ 31" and "2 ^ 31 \<le> unat hi"
  using assms unfolding msb_match_iff bit_31_iff word_le_nat_alt by linarith+

lemma underflow_bounds:
  assumes "lo \<le> hi" and "\<not> msb_match lo hi" and "underflow lo hi"
  shows "2 ^ 30 \<le> unat lo" and "unat hi < 3 * 2 ^ 30"
  using assms(3) no_match_bounds [OF assms(1,2)]
  by (simp_all add: underflow_iff bit_30_low bit_30_high)

lemma normalized_bounds:
  assumes "normalized lo hi"
  shows "unat lo < 2 ^ 31" and "2 ^ 31 \<le> unat hi" and "unat lo < 2 ^ 30 \<or> 3 * 2 ^ 30 \<le> unat hi"
proof -
  from assms have a: "lo \<le> hi" "\<not> msb_match lo hi" "\<not> underflow lo hi"
    by (simp_all add: normalized_def)
  note b = no_match_bounds [OF a(1,2)]
  from b show "unat lo < 2 ^ 31" and "2 ^ 31 \<le> unat hi"
    by simp_all
  from a(3) b show "unat lo < 2 ^ 30 \<or> 3 * 2 ^ 30 \<le> unat hi"
    by (simp add: underflow_iff bit_30_low bit_30_high) linarith
qed

lemma normalized_wide: "normalized lo hi \<Longrightarrow> 335 \<le> unat hi - unat lo + 1"
  using normalized_bounds [of lo hi] by simp linarith

lemma normalized_init: "normalized 0 (NOT 0)"
  by (simp add: normalized_def msb_match_def underflow_def)

lemma match_inv:
  assumes "lo \<le> w" and "w \<le> hi" and "msb_match lo hi" and "b \<le> 1"
  shows "shift_lower lo \<le> shift_window w b" and "shift_window w b \<le> shift_upper hi"
proof -
  have o: "unat lo \<le> unat w" "unat w \<le> unat hi" "unat b \<le> 1"
    using assms by (simp_all add: word_le_nat_alt)
  from match_cases [OF assms(1-3)]
  have "unat (shift_lower lo) \<le> unat (shift_window w b)
      \<and> unat (shift_window w b) \<le> unat (shift_upper hi)"
  proof
    assume "unat hi < 2 ^ 31"
    with o have "unat lo < 2 ^ 31" "unat w < 2 ^ 31" "unat hi < 2 ^ 31"
      by simp_all
    with o show ?thesis
      by (simp add: unat_shift_lower unat_shift_upper unat_shift_window [OF assms(4)])
  next
    assume "2 ^ 31 \<le> unat lo"
    with o have "2 ^ 31 \<le> unat lo" "2 ^ 31 \<le> unat w" "2 ^ 31 \<le> unat hi"
      by simp_all
    moreover note unat_lt32 [of lo] unat_lt32 [of w] unat_lt32 [of hi]
    ultimately show ?thesis
      using o
      by (simp add: unat_shift_lower unat_shift_upper unat_shift_window [OF assms(4)]
          double_mod32_high) linarith
  qed
  then show "shift_lower lo \<le> shift_window w b" and "shift_window w b \<le> shift_upper hi"
    by (simp_all add: word_le_nat_alt)
qed

lemma shift_window_0: "shift_window w 0 = shift_lower w"
  by (simp add: shift_window_def shift_lower_def)

lemma enc_match_inv: "lo \<le> hi \<Longrightarrow> msb_match lo hi \<Longrightarrow> shift_lower lo \<le> shift_upper hi"
  using match_inv [of lo lo hi 0] by (simp add: shift_window_0)

lemma underflow_inv:
  assumes "lo \<le> w" and "w \<le> hi" and "\<not> msb_match lo hi" and "underflow lo hi" and "b \<le> 1"
  shows "splice_lower lo \<le> splice_window w b" and "splice_window w b \<le> splice_upper hi"
proof -
  have o: "unat lo \<le> unat w" "unat w \<le> unat hi" "unat b \<le> 1"
    using assms by (simp_all add: word_le_nat_alt)
  have le: "lo \<le> hi"
    using assms(1,2) by simp
  note n = no_match_bounds [OF le assms(3)] underflow_bounds [OF le assms(3,4)]
  have l: "unat (splice_lower lo) = 2 * unat lo - 2 ^ 31"
    using n by (simp add: unat_splice_lower double_mod31_low)
  have u: "unat (splice_upper hi) = 2 * unat hi + 1 - 2 ^ 31"
    using n by (simp add: unat_splice_upper double_mod31_high)
  have w: "unat (splice_window w b) = 2 * unat w + unat b - 2 ^ 31"
  proof (cases "unat w < 2 ^ 31")
    case True
    with o n show ?thesis
      by (simp add: unat_splice_window [OF assms(5)] double_mod31_low)
  next
    case False
    with o n unat_lt32 [of w] show ?thesis
      by (simp add: unat_splice_window [OF assms(5)] double_mod31_high div31_high)
  qed
  from o n show "splice_lower lo \<le> splice_window w b" and "splice_window w b \<le> splice_upper hi"
    by (simp_all add: word_le_nat_alt l u w)
qed

lemma enc_underflow_inv:
  assumes "lo \<le> hi" and "\<not> msb_match lo hi" and "underflow lo hi"
  shows "splice_lower lo \<le> splice_upper hi"
  using underflow_inv [OF order_refl assms(1) assms(2,3), of 0] by simp

section \<open>The bits written by the encoder\<close>

text \<open>
  The bits of a byte in the order in which they are written and read (least significant
  first), and the bits a sink has accepted so far.
\<close>

definition byte_bits :: "u8 \<Rightarrow> bool list" where
  "byte_bits c = map (bit c) [0..<8]"

definition bytes_bits :: "u8 list \<Rightarrow> bool list" where
  "bytes_bits cs = concat (map byte_bits cs)"

definition emitted :: "OutputBitStream \<Rightarrow> bool list" where
  "emitted s = bytes_bits (outfile s) @ pending s"

lemma byte_bits_pack: "length bs = 8 \<Longrightarrow> byte_bits (pack_byte bs) = bs"
  by (auto simp: byte_bits_def pack_byte_def list_eq_iff_nth_eq bit_horner_sum_bit_word_iff)

lemma length_byte_bits: "length (byte_bits c) = 8"
  by (simp add: byte_bits_def)

lemma bytes_bits_append: "bytes_bits (xs @ ys) = bytes_bits xs @ bytes_bits ys"
  by (simp add: bytes_bits_def)

lemma length_bytes_bits: "length (bytes_bits cs) = 8 * length cs"
  by (induction cs) (simp_all add: bytes_bits_def length_byte_bits)

lemma emitted_init: "emitted OutputBitStream_init = []"
  by (simp add: emitted_def OutputBitStream_init_def bytes_bits_def)

lemma emitted_push_bit: "emitted (push_bit_stream b s) = emitted s @ [bit b 0]"
  by (simp add: emitted_def push_bit_stream_def Let_def bytes_bits_def byte_bits_pack)

lemma pending_push_bit:
  "length (pending s) < 8 \<Longrightarrow> length (pending (push_bit_stream b s)) < 8"
  by (auto simp: push_bit_stream_def Let_def)

lemma emitted_push_copies: "emitted (push_copies n b s) = emitted s @ replicate n (bit b 0)"
  by (induction n arbitrary: s) (simp_all add: emitted_push_bit replicate_app_Cons_same)

lemma pending_push_copies:
  "length (pending s) < 8 \<Longrightarrow> length (pending (push_copies n b s)) < 8"
  by (induction n arbitrary: s) (simp_all add: pending_push_bit)

lemma emitted_flush:
  assumes "length (pending s) < 8"
  shows "emitted (flush_to_byte p s)
      = emitted s @ replicate ((8 - length (pending s)) mod 8) (bit p 0)"
    and "pending (flush_to_byte p s) = []"
  using assms
  by (auto simp: emitted_def flush_to_byte_def bytes_bits_def byte_bits_pack)

lemma word_le_1: "(b :: u32) \<le> 1 \<Longrightarrow> b = 0 \<or> b = 1"
  by (auto simp: word_le_nat_alt word_unat_eq_iff)

lemma drop_bit_31: "drop_bit 31 (x :: u32) = of_bool (bit x 31)"
proof (rule bit_word_eqI)
  fix n
  show "bit (drop_bit 31 x) n \<longleftrightarrow> bit (of_bool (bit x 31) :: u32) n"
  proof (cases "n = 0")
    case True
    then show ?thesis by (simp add: bit_simps)
  next
    case False
    then have "\<not> bit x (31 + n)"
      using bit_imp_le_length [of x "31 + n"] by auto
    with False show ?thesis by (simp add: bit_simps)
  qed
qed

lemma enc_renormalize_match:
  assumes "msb_match lo hi"
  shows "\<exists>s'. enc_renormalize lo hi k s = enc_renormalize (shift_lower lo) (shift_upper hi) 0 s'
    \<and> emitted s' = emitted s @ bit hi 31 # replicate k (\<not> bit hi 31)
    \<and> (length (pending s) < 8 \<longrightarrow> length (pending s') < 8)"
proof -
  define s' where "s' = push_copies k (lnot (drop_bit 31 hi)) (push_bit_stream (drop_bit 31 hi) s)"
  have "enc_renormalize lo hi k s = enc_renormalize (shift_lower lo) (shift_upper hi) 0 s'"
    using assms by (subst enc_renormalize.simps) (simp add: s'_def Let_def)
  moreover have "emitted s' = emitted s @ bit hi 31 # replicate k (\<not> bit hi 31)"
    by (simp add: s'_def emitted_push_copies emitted_push_bit drop_bit_31 lnot_def)
  moreover have "length (pending s) < 8 \<longrightarrow> length (pending s') < 8"
    by (simp add: s'_def pending_push_copies pending_push_bit)
  ultimately show ?thesis by blast
qed

lemma enc_renormalize_underflow:
  assumes "\<not> msb_match lo hi" and "underflow lo hi"
  shows "enc_renormalize lo hi k s =
    (if k = INT_MAX then Inl signed_overflow
     else enc_renormalize (splice_lower lo) (splice_upper hi) (k + 1) s)"
  using assms by (subst enc_renormalize.simps) simp

lemma enc_renormalize_stop:
  assumes "\<not> msb_match lo hi" and "\<not> underflow lo hi"
  shows "enc_renormalize lo hi k s = Inr (lo, hi, k, s)"
  using assms by (subst enc_renormalize.simps) simp

lemma enc_renormalize_result:
  "enc_renormalize lo hi k s = Inr (lo', hi', k', s') \<Longrightarrow>
     \<not> msb_match lo' hi' \<and> \<not> underflow lo' hi'"
proof (induction lo hi k s rule: enc_renormalize.induct)
  case (1 lo hi k s)
  show ?case
  proof (cases "msb_match lo hi")
    case True
    with "1.prems" "1.IH"(1) [OF True refl refl refl] show ?thesis
      by (subst (asm) enc_renormalize.simps) (simp add: Let_def)
  next
    case False
    show ?thesis
    proof (cases "underflow lo hi")
      case True
      with False "1.prems" "1.IH"(2) [OF False True] show ?thesis
        by (subst (asm) enc_renormalize.simps) (simp split: if_splits)
    next
      case u: False
      with False "1.prems" show ?thesis
        by (subst (asm) enc_renormalize.simps) simp
    qed
  qed
qed

lemma dec_renormalize_result:
  "dec_renormalize lo hi w st = (lo', hi', w', st') \<Longrightarrow>
     \<not> msb_match lo' hi' \<and> \<not> underflow lo' hi'"
proof (induction lo hi w st rule: dec_renormalize.induct)
  case (1 lo hi w st)
  show ?case
  proof (cases "msb_match lo hi")
    case True
    with "1.prems" "1.IH"(1) [OF True prod.collapse] show ?thesis
      by (subst (asm) dec_renormalize.simps) (simp add: case_prod_beta)
  next
    case False
    show ?thesis
    proof (cases "underflow lo hi")
      case True
      with False "1.prems" "1.IH"(2) [OF False True prod.collapse] show ?thesis
        by (subst (asm) dec_renormalize.simps) (simp add: case_prod_beta)
    next
      case u: False
      with False "1.prems" show ?thesis
        by (subst (asm) dec_renormalize.simps) simp
    qed
  qed
qed

section \<open>Claims about renormalization\<close>

lemma dec_renormalize_match:
  "msb_match lo hi \<Longrightarrow> dec_renormalize lo hi w st =
     dec_renormalize (shift_lower lo) (shift_upper hi) (shift_window w (fst (read_bit st)))
       (snd (read_bit st))"
  by (subst dec_renormalize.simps) (simp add: case_prod_beta)

lemma dec_renormalize_underflow:
  "\<not> msb_match lo hi \<Longrightarrow> underflow lo hi \<Longrightarrow> dec_renormalize lo hi w st =
     dec_renormalize (splice_lower lo) (splice_upper hi) (splice_window w (fst (read_bit st)))
       (snd (read_bit st))"
  by (subst dec_renormalize.simps) (simp add: case_prod_beta)

lemma dec_renormalize_stop:
  "\<not> msb_match lo hi \<Longrightarrow> \<not> underflow lo hi \<Longrightarrow> dec_renormalize lo hi w st = (lo, hi, w, st)"
  by (subst dec_renormalize.simps) simp

lemma read_bit_le_1: "last_real_bit st \<le> 1 \<Longrightarrow> fst (read_bit st) \<le> 1"
  by (simp add: read_bit_def Let_def word_and_le1 input_byte_def split: list.splits)

text \<open>
  C5: the two tests are tests of bits 31 and 30. On a match the encoder emits the shared
  bit and then \<open>underflow_counter\<close> complements, resets the counter and shifts a 0 into
  \<open>lower_bound\<close> and a 1 into \<open>upper_bound\<close>; on underflow it increments the counter and
  shifts both bounds with the second bit dropped and the top bits forced to 0 and 1, which
  are the top bits that ordered bounds have there; otherwise the loop ends, so its result
  satisfies neither test. The decoder makes the same updates of the bounds and shifts or
  splices \<open>encoded_bits\<close> alike, the bit just read entering at the bottom.
\<close>

theorem renormalization_cases:
  "(msb_match lo hi \<longleftrightarrow> (bit lo 31 \<longleftrightarrow> bit hi 31))
   \<and> (underflow lo hi \<longleftrightarrow> bit lo 30 \<and> \<not> bit hi 30)
   \<and> (msb_match lo hi \<longrightarrow>
        (\<exists>s'. enc_renormalize lo hi k s
               = enc_renormalize (shift_lower lo) (shift_upper hi) 0 s'
             \<and> emitted s' = emitted s @ bit hi 31 # replicate k (\<not> bit hi 31))
        \<and> dec_renormalize lo hi w st
            = dec_renormalize (shift_lower lo) (shift_upper hi)
                (shift_window w (fst (read_bit st))) (snd (read_bit st)))
   \<and> (\<not> msb_match lo hi \<and> underflow lo hi \<longrightarrow>
        enc_renormalize lo hi k s
          = (if k = INT_MAX then Inl signed_overflow
             else enc_renormalize (splice_lower lo) (splice_upper hi) (k + 1) s)
        \<and> dec_renormalize lo hi w st
            = dec_renormalize (splice_lower lo) (splice_upper hi)
                (splice_window w (fst (read_bit st))) (snd (read_bit st)))
   \<and> (\<not> msb_match lo hi \<and> \<not> underflow lo hi \<longrightarrow>
        enc_renormalize lo hi k s = Inr (lo, hi, k, s)
        \<and> dec_renormalize lo hi w st = (lo, hi, w, st))
   \<and> (\<forall>lo' hi' k' s'. enc_renormalize lo hi k s = Inr (lo', hi', k', s') \<longrightarrow>
        \<not> msb_match lo' hi' \<and> \<not> underflow lo' hi')
   \<and> (\<forall>lo' hi' w' st'. dec_renormalize lo hi w st = (lo', hi', w', st') \<longrightarrow>
        \<not> msb_match lo' hi' \<and> \<not> underflow lo' hi')
   \<and> (\<forall>i<32.
        (bit (shift_lower lo) i \<longleftrightarrow> 0 < i \<and> bit lo (i - 1))
        \<and> (bit (shift_upper hi) i \<longleftrightarrow> i = 0 \<or> bit hi (i - 1))
        \<and> (bit (splice_lower lo) i \<longleftrightarrow> 0 < i \<and> i < 31 \<and> bit lo (i - 1))
        \<and> (bit (splice_upper hi) i \<longleftrightarrow> i = 0 \<or> i = 31 \<or> bit hi (i - 1))
        \<and> (b \<le> 1 \<longrightarrow>
             (bit (shift_window w b) i \<longleftrightarrow> (i = 0 \<and> b = 1) \<or> (0 < i \<and> bit w (i - 1)))
             \<and> (bit (splice_window w b) i \<longleftrightarrow>
                  (i = 0 \<and> b = 1) \<or> (i = 31 \<and> bit w 31) \<or> (0 < i \<and> i < 31 \<and> bit w (i - 1)))))
   \<and> (lo \<le> hi \<and> \<not> msb_match lo hi \<longrightarrow> bit hi 31 \<and> \<not> bit lo 31)
   \<and> (last_real_bit st \<le> 1 \<longrightarrow> fst (read_bit st) \<le> 1)"
proof -
  have p1: "msb_match lo hi \<longleftrightarrow> (bit lo 31 \<longleftrightarrow> bit hi 31)"
    by (rule msb_match_iff)
  have p2: "underflow lo hi \<longleftrightarrow> bit lo 30 \<and> \<not> bit hi 30"
    by (rule underflow_iff)
  have p3: "msb_match lo hi \<longrightarrow>
        (\<exists>s'. enc_renormalize lo hi k s
               = enc_renormalize (shift_lower lo) (shift_upper hi) 0 s'
             \<and> emitted s' = emitted s @ bit hi 31 # replicate k (\<not> bit hi 31))
        \<and> dec_renormalize lo hi w st
            = dec_renormalize (shift_lower lo) (shift_upper hi)
                (shift_window w (fst (read_bit st))) (snd (read_bit st))"
    using enc_renormalize_match [of lo hi k s] dec_renormalize_match [of lo hi w st]
    by blast
  have p4: "\<not> msb_match lo hi \<and> underflow lo hi \<longrightarrow>
        enc_renormalize lo hi k s
          = (if k = INT_MAX then Inl signed_overflow
             else enc_renormalize (splice_lower lo) (splice_upper hi) (k + 1) s)
        \<and> dec_renormalize lo hi w st
            = dec_renormalize (splice_lower lo) (splice_upper hi)
                (splice_window w (fst (read_bit st))) (snd (read_bit st))"
    using enc_renormalize_underflow [of lo hi k s] dec_renormalize_underflow [of lo hi w st]
    by blast
  have p5: "\<not> msb_match lo hi \<and> \<not> underflow lo hi \<longrightarrow>
        enc_renormalize lo hi k s = Inr (lo, hi, k, s)
        \<and> dec_renormalize lo hi w st = (lo, hi, w, st)"
    using enc_renormalize_stop [of lo hi k s] dec_renormalize_stop [of lo hi w st]
    by blast
  have p6: "\<forall>lo' hi' k' s'. enc_renormalize lo hi k s = Inr (lo', hi', k', s') \<longrightarrow>
        \<not> msb_match lo' hi' \<and> \<not> underflow lo' hi'"
    using enc_renormalize_result [of lo hi k s] by blast
  have p7: "\<forall>lo' hi' w' st'. dec_renormalize lo hi w st = (lo', hi', w', st') \<longrightarrow>
        \<not> msb_match lo' hi' \<and> \<not> underflow lo' hi'"
    using dec_renormalize_result [of lo hi w st] by blast
  have p8: "\<forall>i<32.
        (bit (shift_lower lo) i \<longleftrightarrow> 0 < i \<and> bit lo (i - 1))
        \<and> (bit (shift_upper hi) i \<longleftrightarrow> i = 0 \<or> bit hi (i - 1))
        \<and> (bit (splice_lower lo) i \<longleftrightarrow> 0 < i \<and> i < 31 \<and> bit lo (i - 1))
        \<and> (bit (splice_upper hi) i \<longleftrightarrow> i = 0 \<or> i = 31 \<or> bit hi (i - 1))
        \<and> (b \<le> 1 \<longrightarrow>
             (bit (shift_window w b) i \<longleftrightarrow> (i = 0 \<and> b = 1) \<or> (0 < i \<and> bit w (i - 1)))
             \<and> (bit (splice_window w b) i \<longleftrightarrow>
                  (i = 0 \<and> b = 1) \<or> (i = 31 \<and> bit w 31) \<or> (0 < i \<and> i < 31 \<and> bit w (i - 1))))"
    by (simp add: bit_shift_lower bit_shift_upper bit_splice_lower bit_splice_upper
        bit_shift_window bit_splice_window)
  have p9: "lo \<le> hi \<and> \<not> msb_match lo hi \<longrightarrow> bit hi 31 \<and> \<not> bit lo 31"
    using no_match_bounds [of lo hi] by (auto simp: bit_31_iff)
  have p10: "last_real_bit st \<le> 1 \<longrightarrow> fst (read_bit st) \<le> 1"
    using read_bit_le_1 [of st] by blast
  show ?thesis
    by (intro conjI p1 p2 p3 p4 p5 p6 p7 p8 p9 p10)
qed

theorem renormalization_cases_witness:
  "msb_match 0x80000000 0xFFFFFFFF
   \<and> (\<exists>s'. enc_renormalize 0x80000000 0xFFFFFFFF 2 OutputBitStream_init
             = enc_renormalize 0 0xFFFFFFFF 0 s' \<and> emitted s' = True # replicate 2 False)
   \<and> \<not> msb_match 0x40000000 0xBFFFFFFF \<and> underflow 0x40000000 0xBFFFFFFF
   \<and> enc_renormalize 0x40000000 0xBFFFFFFF 0 OutputBitStream_init
       = enc_renormalize 0 0xFFFFFFFF 1 OutputBitStream_init
   \<and> \<not> msb_match 0 0xFFFFFFFF \<and> \<not> underflow 0 0xFFFFFFFF
   \<and> enc_renormalize 0 0xFFFFFFFF 1 OutputBitStream_init
       = Inr (0, 0xFFFFFFFF, 1, OutputBitStream_init)"
proof -
  have t: "msb_match 0x80000000 0xFFFFFFFF" "\<not> msb_match 0x40000000 0xBFFFFFFF"
    "underflow 0x40000000 0xBFFFFFFF" "\<not> msb_match 0 0xFFFFFFFF" "\<not> underflow 0 0xFFFFFFFF"
    by (simp_all add: msb_match_def underflow_def)
  have v: "shift_lower 0x80000000 = 0" "shift_upper 0xFFFFFFFF = 0xFFFFFFFF"
    "splice_lower 0x40000000 = 0" "splice_upper 0xBFFFFFFF = 0xFFFFFFFF"
    "(0::nat) \<noteq> INT_MAX" "bit (0xFFFFFFFF :: u32) 31"
    by (simp_all add: shift_lower_def shift_upper_def splice_lower_def splice_upper_def
        INT_MAX_def)
  note a = renormalization_cases [of "0x80000000" "0xFFFFFFFF" 2 OutputBitStream_init,
      THEN conjunct2, THEN conjunct2, THEN conjunct1, THEN mp, OF t(1), THEN conjunct1]
  note b = renormalization_cases [of "0x40000000" "0xBFFFFFFF" 0 OutputBitStream_init,
      THEN conjunct2, THEN conjunct2, THEN conjunct2, THEN conjunct1, THEN mp,
      OF conjI [OF t(2,3)], THEN conjunct1]
  note c = renormalization_cases [of 0 "0xFFFFFFFF" 1 OutputBitStream_init,
      THEN conjunct2, THEN conjunct2, THEN conjunct2, THEN conjunct2, THEN conjunct1, THEN mp,
      OF conjI [OF t(4,5)], THEN conjunct1]
  have a': "\<exists>s'. enc_renormalize 0x80000000 0xFFFFFFFF 2 OutputBitStream_init
             = enc_renormalize 0 0xFFFFFFFF 0 s' \<and> emitted s' = True # replicate 2 False"
    using a by (simp add: v emitted_init)
  have b': "enc_renormalize 0x40000000 0xBFFFFFFF 0 OutputBitStream_init
       = enc_renormalize 0 0xFFFFFFFF 1 OutputBitStream_init"
    using b by (simp add: v)
  from t a' b' c show ?thesis
    by (intro conjI)
qed

end
